theory Spec2Isabelle
  imports Main "HOL-Library.Finite_Map" "HOL-Library.Word"
begin

section \<open>Strings\<close>

text \<open>
  File names, stems and archive member names are Python \<open>str\<close> values. They are
  modelled as HOL strings (lists of 8-bit characters); case folding and white space
  are the ASCII ones, so a character outside ASCII is neither cased nor white space.
\<close>

subsection \<open>\<open>sanitize_stem\<close> (main.py, lines 7-9)\<close>

text \<open>The character class of the regular expression \<^verbatim>\<open>[<>:"/\\|?*\n\r]+\<close>.\<close>

definition illegal_chars :: "string" where
  "illegal_chars =
     [CHR ''<'', CHR ''>'', CHR '':'', CHR 0x22, CHR ''/'', CHR 0x5C, CHR ''|'', CHR ''?'',
      CHR ''*'', CHR 0x0A, CHR 0x0D]"

definition illegal :: "char \<Rightarrow> bool" where
  "illegal c = (c \<in> set illegal_chars)"

text \<open>
  \<^verbatim>\<open>re.sub(r'[<>:"/\\|?*\n\r]+', '_', stem)\<close>: every maximal run of illegal characters
  is replaced by one underscore.
\<close>

function re_sub :: "string \<Rightarrow> string" where
  "re_sub [] = []"
| "re_sub (c # cs) =
     (if illegal c then CHR ''_'' # re_sub (dropWhile illegal cs) else c # re_sub cs)"
  by pat_completeness auto
termination
  by (relation "measure length") (auto simp: less_Suc_eq_le length_dropWhile_le)

text \<open>
  The characters \<^verbatim>\<open>str.strip()\<close> removes, within ASCII: tab, line feed, vertical tab,
  form feed, carriage return, the four separators 0x1C-0x1F and the space.
\<close>

definition whitespace_chars :: "string" where
  "whitespace_chars =
     [CHR 0x09, CHR 0x0A, CHR 0x0B, CHR 0x0C, CHR 0x0D, CHR 0x1C, CHR 0x1D, CHR 0x1E,
      CHR 0x1F, CHR 0x20]"

definition is_space :: "char \<Rightarrow> bool" where
  "is_space c = (c \<in> set whitespace_chars)"

definition strip :: "string \<Rightarrow> string" where
  "strip s = rev (dropWhile is_space (rev (dropWhile is_space s)))"

definition sanitize_stem :: "string \<Rightarrow> string" where
  "sanitize_stem stem = strip (re_sub stem)"

subsection \<open>Decimal numerals, lower case, suffix tests\<close>

definition digit_char :: "nat \<Rightarrow> char" where
  "digit_char d = ''0123456789'' ! d"

text \<open>\<^verbatim>\<open>str(n)\<close> for a counter \<open>n \<ge> 0\<close>, as the f-string \<^verbatim>\<open>f"{base_stem}_{n}"\<close> formats it.\<close>

function str_nat :: "nat \<Rightarrow> string" where
  "str_nat n =
     (if n < 10 then [digit_char n] else str_nat (n div 10) @ [digit_char (n mod 10)])"
  by pat_completeness auto
termination
  by (relation "measure id") auto

definition lower_char :: "char \<Rightarrow> char" where
  "lower_char c =
     (case map_of (zip ''ABCDEFGHIJKLMNOPQRSTUVWXYZ'' ''abcdefghijklmnopqrstuvwxyz'') c of
        Some l \<Rightarrow> l
      | None \<Rightarrow> c)"

text \<open>\<^verbatim>\<open>s.lower()\<close>\<close>

definition lower :: "string \<Rightarrow> string" where
  "lower s = map lower_char s"

text \<open>\<^verbatim>\<open>s.startswith(p)\<close> and \<^verbatim>\<open>s.endswith(e)\<close>\<close>

definition startswith :: "string \<Rightarrow> string \<Rightarrow> bool" where
  "startswith s p = (take (length p) s = p)"

definition endswith :: "string \<Rightarrow> string \<Rightarrow> bool" where
  "endswith s e = (length e \<le> length s \<and> drop (length s - length e) s = e)"

section \<open>The name allocator: \<open>get_unique_stem\<close> (main.py, lines 11-37)\<close>

definition IMAGE_EXTS :: "string list" where
  "IMAGE_EXTS = [''.heic'', ''.jpg'', ''.jpeg'']"

type_synonym bytes = "8 word list"

text \<open>
  The output folder: finitely many entries, each a name with its content. A path
  \<^verbatim>\<open>output_dir / name\<close> exists when the folder has an entry of that name.
\<close>

type_synonym folder = "(string, bytes) fmap"

text \<open>The dictionary \<^verbatim>\<open>seen_filenames\<close> / \<^verbatim>\<open>existing_stems\<close>.\<close>

type_synonym registry = "string \<Rightarrow> nat option"

definition path_exists :: "folder \<Rightarrow> string \<Rightarrow> bool" where
  "path_exists output_dir name = (fmlookup output_dir name \<noteq> None)"

text \<open>
  The loop condition of line 25:
  \<^verbatim>\<open>any((output_dir / f"{candidate}{ext}").exists() for ext in ('.mov',) + IMAGE_EXTS)\<close>
\<close>

definition any_exists :: "folder \<Rightarrow> string \<Rightarrow> bool" where
  "any_exists output_dir candidate =
     list_ex (\<lambda>ext. path_exists output_dir (candidate @ ext)) (''.mov'' # IMAGE_EXTS)"

text \<open>\<^verbatim>\<open>f"{base_stem}_{counter}"\<close>\<close>

definition suffixed :: "string \<Rightarrow> nat \<Rightarrow> string" where
  "suffixed base_stem counter = base_stem @ ''_'' @ str_nat counter"

text \<open>
  The while loop of lines 25-27. \<open>counter\<close> is the value of
  \<^verbatim>\<open>existing_stems[base_stem]\<close>, the only entry of the dictionary the loop reads or
  writes. A loop that never leaves is the value \<open>None\<close>.
\<close>

partial_function (option) disk_loop ::
  "folder \<Rightarrow> string \<Rightarrow> nat \<Rightarrow> string \<Rightarrow> (nat \<times> string) option" where
  "disk_loop output_dir base_stem counter candidate =
     (if any_exists output_dir candidate
      then disk_loop output_dir base_stem (counter + 1) (suffixed base_stem (counter + 1))
      else Some (counter, candidate))"

declare disk_loop.simps [code]

text \<open>
  \<open>get_unique_stem\<close> returns the candidate; the dictionary it mutates is returned
  with it. Lines 30-35 store 0 where the counter is 0 and do nothing otherwise.
\<close>

definition get_unique_stem ::
  "string \<Rightarrow> registry \<Rightarrow> folder \<Rightarrow> (string \<times> registry) option" where
  "get_unique_stem raw_stem existing_stems output_dir =
     (let base_stem = sanitize_stem raw_stem;
          existing_stems1 =
            (if existing_stems base_stem = None then existing_stems(base_stem \<mapsto> 0)
             else existing_stems);
          counter = (case existing_stems1 base_stem of Some c \<Rightarrow> c | None \<Rightarrow> 0);
          candidate = (if counter = 0 then base_stem else suffixed base_stem counter)
      in case disk_loop output_dir base_stem counter candidate of
           None \<Rightarrow> None
         | Some (counter2, candidate2) \<Rightarrow>
             (let existing_stems2 = existing_stems1(base_stem \<mapsto> counter2);
                  existing_stems3 =
                    (if counter2 = 0 then existing_stems2(base_stem \<mapsto> 0)
                     else existing_stems2)
              in Some (candidate2, existing_stems3)))"

section \<open>Archive members: \<open>PurePosixPath\<close> and the selection loop (main.py, lines 115-135)\<close>

text \<open>\<^verbatim>\<open>filename.split('/')\<close>\<close>

fun split_slash :: "string \<Rightarrow> string list" where
  "split_slash [] = [[]]"
| "split_slash (c # cs) =
     (if c = CHR ''/'' then [] # split_slash cs
      else (case split_slash cs of
              [] \<Rightarrow> [[c]]
            | seg # segs \<Rightarrow> (c # seg) # segs))"

text \<open>
  \<^verbatim>\<open>PurePosixPath(filename)\<close>: the root is \<^verbatim>\<open>//\<close> for exactly two leading slashes and
  \<^verbatim>\<open>/\<close> for one or for three and more; empty segments and the segment \<^verbatim>\<open>.\<close> are
  dropped. \<^verbatim>\<open>parts\<close> is the root, when there is one, followed by the segments;
  \<^verbatim>\<open>name\<close> is the last segment, or the empty string when there is none.
\<close>

definition posix_root :: "string \<Rightarrow> string list" where
  "posix_root filename =
     (if startswith filename ''//'' \<and> \<not> startswith filename ''///'' then [''//'']
      else if startswith filename ''/'' then [''/'']
      else [])"

definition posix_segments :: "string \<Rightarrow> string list" where
  "posix_segments filename =
     filter (\<lambda>seg. seg \<noteq> [] \<and> seg \<noteq> ''.'') (split_slash filename)"

definition posix_parts :: "string \<Rightarrow> string list" where
  "posix_parts filename = posix_root filename @ posix_segments filename"

definition posix_name :: "string \<Rightarrow> string" where
  "posix_name filename =
     (if posix_segments filename = [] then [] else last (posix_segments filename))"

text \<open>\<^verbatim>\<open>name.rfind('.')\<close>, with \<open>None\<close> for -1.\<close>

definition rfind_dot :: "string \<Rightarrow> nat option" where
  "rfind_dot name =
     (if CHR ''.'' \<in> set name
      then Some (length name - 1 - length (takeWhile (\<lambda>c. c \<noteq> CHR ''.'') (rev name)))
      else None)"

text \<open>
  \<^verbatim>\<open>PurePosixPath(filename).suffix\<close>: with \<^verbatim>\<open>i = name.rfind('.')\<close>, the slice
  \<^verbatim>\<open>name[i:]\<close> if \<^verbatim>\<open>0 < i < len(name) - 1\<close>, else the empty string.
\<close>

definition posix_suffix :: "string \<Rightarrow> string" where
  "posix_suffix filename =
     (let name = posix_name filename
      in case rfind_dot name of
           None \<Rightarrow> []
         | Some i \<Rightarrow> if 0 < i \<and> i < length name - 1 then drop i name else [])"

text \<open>\<^verbatim>\<open>name_lower.endswith(IMAGE_EXTS)\<close>, with a tuple of suffixes.\<close>

definition endswith_any :: "string \<Rightarrow> string list \<Rightarrow> bool" where
  "endswith_any s exts = list_ex (endswith s) exts"

text \<open>The test of line 125, on the lower-cased \<^verbatim>\<open>parts\<close> of a member name.\<close>

definition skipped :: "string \<Rightarrow> bool" where
  "skipped filename =
     (let parts = map lower (posix_parts filename)
      in list_ex (\<lambda>part. startswith part ''__macosx'') parts \<or>
         list_ex (\<lambda>part. startswith part ''.'') parts)"

text \<open>Python's truth value of a variable that holds \<^verbatim>\<open>None\<close> or a string.\<close>

fun truthy :: "string option \<Rightarrow> bool" where
  "truthy None = False"
| "truthy (Some s) = (s \<noteq> [])"

text \<open>
  The loop over \<^verbatim>\<open>zip_contents\<close> (lines 118-135), from the current values of
  \<^verbatim>\<open>image_file_name\<close> and \<^verbatim>\<open>mov_file_name\<close>; the \<^verbatim>\<open>break\<close> of line 135 returns at once.
\<close>

fun scan_members ::
  "string list \<Rightarrow> string option \<Rightarrow> string option \<Rightarrow> string option \<times> string option" where
  "scan_members [] image_file_name mov_file_name = (image_file_name, mov_file_name)"
| "scan_members (filename # rest) image_file_name mov_file_name =
     (if skipped filename then scan_members rest image_file_name mov_file_name
      else
        (let name_lower = lower (posix_name filename);
             image2 =
               (if endswith_any name_lower IMAGE_EXTS
                then (if image_file_name = None then Some filename else image_file_name)
                else image_file_name);
             mov2 =
               (if endswith_any name_lower IMAGE_EXTS then mov_file_name
                else if endswith name_lower ''.mov''
                then (if mov_file_name = None then Some filename else mov_file_name)
                else mov_file_name)
         in if truthy image2 \<and> truthy mov2 then (image2, mov2)
            else scan_members rest image2 mov2))"

section \<open>The per-file loop of \<open>main\<close> (main.py, lines 82-160)\<close>

text \<open>The two handlers of the loop body tell \<^verbatim>\<open>zipfile.BadZipFile\<close> from every other exception.\<close>

datatype exn = BadZipFile | OtherException

text \<open>
  What \<^verbatim>\<open>with zip_ref.open(name) as source, open(path, 'wb') as target:
  shutil.copyfileobj(source, target)\<close> does for one member: it copies the member's bytes;
  or it raises after the target was created and some bytes were written; or it raises
  before the target is created.
\<close>

datatype copy_result = Copied bytes | Truncated exn bytes | Refused exn

text \<open>
  An opened archive: \<^verbatim>\<open>zip_ref.namelist()\<close> in stored order, and for each member name
  what reading it through \<^verbatim>\<open>zip_ref.open\<close> gives.
\<close>

record zip_ref =
  namelist :: "string list"
  member_read :: "string \<Rightarrow> copy_result"

text \<open>
  One enumerated \<^verbatim>\<open>.livp\<close> path: its \<^verbatim>\<open>stem\<close>, and what \<^verbatim>\<open>zipfile.ZipFile(livp_path, 'r')\<close>
  gives, an exception or the opened archive.
\<close>

record livp =
  livp_stem :: string
  livp_zip :: "exn + zip_ref"

datatype extraction_result = Success | SkippedIncomplete | Corrupt | OtherError

text \<open>The variables of \<open>main\<close> that the loop changes, and the output folder.\<close>

record run_state =
  successful_extractions :: nat
  failed_extractions :: nat
  seen_filenames :: registry
  output_folder :: folder

fun copy_to :: "copy_result \<Rightarrow> string \<Rightarrow> folder \<Rightarrow> exn option \<times> folder" where
  "copy_to (Copied content) path d = (None, fmupd path content d)"
| "copy_to (Truncated e content) path d = (Some e, fmupd path content d)"
| "copy_to (Refused e) path d = (Some e, d)"

text \<open>The handlers of lines 155-160.\<close>

fun handler :: "exn \<Rightarrow> run_state \<Rightarrow> extraction_result \<times> run_state" where
  "handler BadZipFile s = (Corrupt, s\<lparr>failed_extractions := failed_extractions s + 1\<rparr>)"
| "handler OtherException s =
     (OtherError, s\<lparr>failed_extractions := failed_extractions s + 1\<rparr>)"

text \<open>Lines 137-140: the archive is reported, counted as failed, and the loop continues.\<close>

definition skip_incomplete :: "run_state \<Rightarrow> extraction_result \<times> run_state" where
  "skip_incomplete s = (SkippedIncomplete, s\<lparr>failed_extractions := failed_extractions s + 1\<rparr>)"

text \<open>Lines 137-153, once the members are scanned.\<close>

fun extract_selected ::
  "zip_ref \<Rightarrow> string \<Rightarrow> string option \<Rightarrow> string option \<Rightarrow> run_state \<Rightarrow>
   extraction_result \<times> run_state" where
  "extract_selected zf unique_stem (Some image_file_name) (Some mov_file_name) s =
     (if image_file_name = [] \<or> mov_file_name = [] then skip_incomplete s
      else
        (let image_ext = lower (posix_suffix image_file_name);
             output_image_path = unique_stem @ image_ext;
             output_mov_path = unique_stem @ ''.mov''
         in case copy_to (member_read zf image_file_name) output_image_path (output_folder s) of
              (Some e, d1) \<Rightarrow> handler e (s\<lparr>output_folder := d1\<rparr>)
            | (None, d1) \<Rightarrow>
                (case copy_to (member_read zf mov_file_name) output_mov_path d1 of
                   (Some e, d2) \<Rightarrow> handler e (s\<lparr>output_folder := d2\<rparr>)
                 | (None, d2) \<Rightarrow>
                     (Success,
                      s\<lparr>output_folder := d2,
                        successful_extractions := successful_extractions s + 1\<rparr>))))"
| "extract_selected zf unique_stem _ _ s = skip_incomplete s"

text \<open>
  Lines 111-160 of one iteration: the archive is opened, scanned and extracted under the
  stem \<open>unique_stem\<close>; an exception raised by \<^verbatim>\<open>zipfile.ZipFile\<close> or by a copy goes to
  its handler.
\<close>

definition extract_archive ::
  "livp \<Rightarrow> string \<Rightarrow> run_state \<Rightarrow> extraction_result \<times> run_state" where
  "extract_archive livp_path unique_stem s =
     (case livp_zip livp_path of
        Inl e \<Rightarrow> handler e s
      | Inr zf \<Rightarrow>
          (let (image_file_name, mov_file_name) = scan_members (namelist zf) None None
           in extract_selected zf unique_stem image_file_name mov_file_name s))"

text \<open>
  One iteration of the loop of line 94. It returns the stem \<open>get_unique_stem\<close>
  allocated, the branch taken and the new state; \<open>None\<close> if the allocator does not
  return.
\<close>

definition process_file ::
  "livp \<Rightarrow> run_state \<Rightarrow> ((string \<times> extraction_result) \<times> run_state) option" where
  "process_file livp_path s =
     (case get_unique_stem (livp_stem livp_path) (seen_filenames s) (output_folder s) of
        None \<Rightarrow> None
      | Some (unique_stem, seen) \<Rightarrow>
          (let (res, s2) = extract_archive livp_path unique_stem (s\<lparr>seen_filenames := seen\<rparr>)
           in Some ((unique_stem, res), s2)))"

fun run ::
  "livp list \<Rightarrow> run_state \<Rightarrow> ((string \<times> extraction_result) list \<times> run_state) option" where
  "run [] s = Some ([], s)"
| "run (livp_path # rest) s =
     (case process_file livp_path s of
        None \<Rightarrow> None
      | Some (r, s1) \<Rightarrow>
          (case run rest s1 of
             None \<Rightarrow> None
           | Some (rs, s2) \<Rightarrow> Some (r # rs, s2)))"

text \<open>Lines 82-87: both counters start at 0 and \<^verbatim>\<open>seen_filenames\<close> is empty.\<close>

definition initial_state :: "folder \<Rightarrow> run_state" where
  "initial_state d =
     \<lparr>successful_extractions = 0, failed_extractions = 0, seen_filenames = Map.empty,
      output_folder = d\<rparr>"

text \<open>The run of \<open>main\<close> over the enumerated files, against the output folder \<open>d\<close>.\<close>

definition main_loop ::
  "livp list \<Rightarrow> folder \<Rightarrow> ((string \<times> extraction_result) list \<times> run_state) option" where
  "main_loop livp_files d = run livp_files (initial_state d)"

section \<open>Member selection as the specification words it\<close>

text \<open>
  The specification's selection policy, to be compared with \<open>scan_members\<close>: discard
  the members that have a hidden or metadata path segment; among the remaining ones, the
  image member is the first whose lower-cased basename ends with a recognized image
  extension, the video member the first whose lower-cased basename ends with
  \<^verbatim>\<open>.mov\<close>, each found independently of the other.
\<close>

definition is_image_member :: "string \<Rightarrow> bool" where
  "is_image_member filename = endswith_any (lower (posix_name filename)) IMAGE_EXTS"

definition is_video_member :: "string \<Rightarrow> bool" where
  "is_video_member filename = endswith (lower (posix_name filename)) ''.mov''"

definition kept_members :: "string list \<Rightarrow> string list" where
  "kept_members names = filter (\<lambda>filename. \<not> skipped filename) names"

definition select_first :: "string list \<Rightarrow> string option \<times> string option" where
  "select_first names =
     (find is_image_member (kept_members names), find is_video_member (kept_members names))"

text \<open>
  The file names under a stem that the loop condition of \<open>get_unique_stem\<close> tests:
  the stem followed by \<^verbatim>\<open>.mov\<close> or by a recognized image extension.
\<close>

definition output_names :: "string \<Rightarrow> string list" where
  "output_names unique_stem = map (\<lambda>ext. unique_stem @ ext) (''.mov'' # IMAGE_EXTS)"

section \<open>Example inputs\<close>

text \<open>
  An archive as a phone exports it, with a macOS resource fork, the video stored before
  the still image; an archive that holds a video only; a file that is not a zip archive.
\<close>

definition example_zip :: zip_ref where
  "example_zip =
     \<lparr>namelist = [''__MACOSX/._IMG_0001.HEIC'', ''IMG_0001.MOV'', ''IMG_0001.HEIC''],
      member_read =
        (\<lambda>name. if name = ''IMG_0001.HEIC'' then Copied [1, 2, 3]
               else if name = ''IMG_0001.MOV'' then Copied [4, 5]
               else Refused OtherException)\<rparr>"

definition example_livp :: livp where
  "example_livp = \<lparr>livp_stem = ''IMG_0001'', livp_zip = Inr example_zip\<rparr>"

definition video_only_zip :: zip_ref where
  "video_only_zip =
     \<lparr>namelist = [''IMG_0001.MOV''], member_read = (\<lambda>name. Copied [4, 5])\<rparr>"

definition video_only_livp :: livp where
  "video_only_livp = \<lparr>livp_stem = ''IMG_0001'', livp_zip = Inr video_only_zip\<rparr>"

definition corrupt_livp :: livp where
  "corrupt_livp = \<lparr>livp_stem = ''IMG_0001'', livp_zip = Inl BadZipFile\<rparr>"

section \<open>Sanitization\<close>







section \<open>Termination of the disk-collision loop\<close>

lemma str_nat_nonempty: "str_nat n \<noteq> []"
  by (subst str_nat.simps) simp

lemma digit_char_inj: "a < 10 \<Longrightarrow> b < 10 \<Longrightarrow> digit_char a = digit_char b \<Longrightarrow> a = b"
  unfolding digit_char_def
  by (subst (asm) nth_eq_iff_index_eq) auto

lemma str_nat_small: "n < 10 \<Longrightarrow> str_nat n = [digit_char n]"
  by (subst str_nat.simps) simp

lemma str_nat_large: "\<not> n < 10 \<Longrightarrow> str_nat n = str_nat (n div 10) @ [digit_char (n mod 10)]"
  by (subst str_nat.simps) simp

lemma str_nat_inj: "str_nat n = str_nat m \<Longrightarrow> n = m"
proof (induction n arbitrary: m rule: str_nat.induct)
  case (1 n)
  show ?case
  proof (cases "n < 10")
    case n: True
    show ?thesis
    proof (cases "m < 10")
      case True
      with n "1.prems" show ?thesis
        by (simp add: str_nat_small digit_char_inj)
    next
      case False
      with n "1.prems" str_nat_nonempty [of "m div 10"] show ?thesis
        by (simp add: str_nat_small str_nat_large)
    qed
  next
    case n: False
    show ?thesis
    proof (cases "m < 10")
      case True
      with n "1.prems" str_nat_nonempty [of "n div 10"] show ?thesis
        by (simp add: str_nat_small str_nat_large)
    next
      case False
      with n "1.prems" have e: "str_nat (n div 10) = str_nat (m div 10)"
        and d: "digit_char (n mod 10) = digit_char (m mod 10)"
        by (simp_all add: str_nat_large)
      from "1.IH" [OF n e] have "n div 10 = m div 10" .
      moreover from d have "n mod 10 = m mod 10"
        by (intro digit_char_inj) simp_all
      ultimately show ?thesis
        by (metis div_mult_mod_eq)
    qed
  qed
qed

lemma suffixed_inj: "suffixed base n = suffixed base m \<Longrightarrow> n = m"
  by (simp add: suffixed_def str_nat_inj)

lemma finite_taken: "finite {n. any_exists d (suffixed base n)}"
proof -
  have "finite {n. suffixed base n @ ext \<in> fmdom' d}" for ext
  proof -
    have "inj (\<lambda>n. suffixed base n @ ext)"
      by (rule injI) (simp add: suffixed_inj)
    then have "finite ((\<lambda>n. suffixed base n @ ext) -` fmdom' d)"
      by (rule finite_vimageI [OF finite_fmdom'])
    then show ?thesis by (simp add: vimage_def)
  qed
  then have "finite (\<Union>ext \<in> set (''.mov'' # IMAGE_EXTS). {n. suffixed base n @ ext \<in> fmdom' d})"
    by blast
  moreover have "{n. any_exists d (suffixed base n)} =
      (\<Union>ext \<in> set (''.mov'' # IMAGE_EXTS). {n. suffixed base n @ ext \<in> fmdom' d})"
    by (auto simp: any_exists_def path_exists_def list_ex_iff fmlookup_dom'_iff)
  ultimately show ?thesis by simp
qed

lemma disk_loop_from_suffixed:
  "\<forall>n\<ge>N. \<not> any_exists d (suffixed base n) \<Longrightarrow>
   \<exists>c'. disk_loop d base c (suffixed base c) = Some (c', suffixed base c') \<and> c \<le> c' \<and>
        \<not> any_exists d (suffixed base c')"
proof (induction "N - c" arbitrary: c rule: less_induct)
  case less
  show ?case
  proof (cases "any_exists d (suffixed base c)")
    case False
    then show ?thesis by (subst disk_loop.simps) simp
  next
    case True
    with less.prems have "c < N" by (meson not_le)
    then have "N - (c + 1) < N - c" by simp
    from less.hyps [OF this less.prems] obtain c' where
      "disk_loop d base (c + 1) (suffixed base (c + 1)) = Some (c', suffixed base c')"
      "c + 1 \<le> c'" "\<not> any_exists d (suffixed base c')" by blast
    with True show ?thesis by (subst disk_loop.simps) auto
  qed
qed

lemma free_bound: "\<exists>N. \<forall>n\<ge>N. \<not> any_exists d (suffixed base n)"
proof -
  from finite_taken [of d base] obtain N where "\<forall>n \<in> {n. any_exists d (suffixed base n)}. n < N"
    using finite_nat_set_iff_bounded by blast
  then have "\<forall>n\<ge>N. \<not> any_exists d (suffixed base n)" by auto
  then show ?thesis ..
qed

lemma disk_loop_returns:
  "\<exists>c' cand'. disk_loop d base c cand = Some (c', cand') \<and> \<not> any_exists d cand' \<and>
     (c' = c \<and> cand' = cand \<or> c < c' \<and> cand' = suffixed base c')"
proof (cases "any_exists d cand")
  case False
  then show ?thesis by (subst disk_loop.simps) simp
next
  case True
  obtain N where "\<forall>n\<ge>N. \<not> any_exists d (suffixed base n)" using free_bound by blast
  from disk_loop_from_suffixed [OF this, of "c + 1"] obtain c' where
    "disk_loop d base (c + 1) (suffixed base (c + 1)) = Some (c', suffixed base c')"
    "c + 1 \<le> c'" "\<not> any_exists d (suffixed base c')" by blast
  with True show ?thesis by (subst disk_loop.simps) auto
qed

lemma get_unique_stem_unfold:
  "get_unique_stem raw reg d =
     (case disk_loop d (sanitize_stem raw)
             (case reg (sanitize_stem raw) of None \<Rightarrow> 0 | Some c \<Rightarrow> c)
             (case reg (sanitize_stem raw) of
                None \<Rightarrow> sanitize_stem raw
              | Some c \<Rightarrow> if c = 0 then sanitize_stem raw else suffixed (sanitize_stem raw) c) of
        None \<Rightarrow> None
      | Some (c2, cand2) \<Rightarrow> Some (cand2, reg(sanitize_stem raw \<mapsto> c2)))"
proof (cases "reg (sanitize_stem raw)")
  case None
  then show ?thesis
    by (auto simp: get_unique_stem_def Let_def split: option.splits)
next
  case (Some c)
  then show ?thesis
    by (auto simp: get_unique_stem_def Let_def split: option.splits)
qed

lemma get_unique_stem_returns: "\<exists>unique reg2. get_unique_stem raw reg d = Some (unique, reg2)"
proof -
  obtain c2 cand2 where
    "disk_loop d (sanitize_stem raw)
       (case reg (sanitize_stem raw) of None \<Rightarrow> 0 | Some c \<Rightarrow> c)
       (case reg (sanitize_stem raw) of
          None \<Rightarrow> sanitize_stem raw
        | Some c \<Rightarrow> if c = 0 then sanitize_stem raw else suffixed (sanitize_stem raw) c)
     = Some (c2, cand2)"
    using disk_loop_returns by blast
  then show ?thesis
    by (simp add: get_unique_stem_unfold)
qed

lemma get_unique_stem_free:
  assumes "get_unique_stem raw reg d = Some (unique, reg2)"
  shows "\<not> any_exists d unique"
proof -
  obtain c2 cand2 where
    l: "disk_loop d (sanitize_stem raw)
       (case reg (sanitize_stem raw) of None \<Rightarrow> 0 | Some c \<Rightarrow> c)
       (case reg (sanitize_stem raw) of
          None \<Rightarrow> sanitize_stem raw
        | Some c \<Rightarrow> if c = 0 then sanitize_stem raw else suffixed (sanitize_stem raw) c)
     = Some (c2, cand2)" and f: "\<not> any_exists d cand2"
    using disk_loop_returns by blast
  from assms l have "unique = cand2"
    by (simp add: get_unique_stem_unfold)
  with f show ?thesis by simp
qed


section \<open>Member selection\<close>

lemma endswith_last: "endswith s e \<Longrightarrow> e \<noteq> [] \<Longrightarrow> s \<noteq> [] \<and> last s = last e"
proof -
  assume a: "endswith s e" and e: "e \<noteq> []"
  then have d: "drop (length s - length e) s = e" by (simp add: endswith_def)
  with e have s: "s \<noteq> []" by auto
  from d e have "last e = last (drop (length s - length e) s)" by simp
  also have "\<dots> = last s"
    using d e by (metis drop_eq_Nil last_drop not_le)
  finally show ?thesis using s by simp
qed

lemma image_not_video: "is_image_member f \<Longrightarrow> \<not> is_video_member f"
  unfolding is_image_member_def is_video_member_def endswith_any_def IMAGE_EXTS_def
  by (auto dest!: endswith_last)

lemma posix_name_Nil: "posix_name [] = []"
  by (simp add: posix_name_def posix_segments_def)

lemma image_nonempty: "is_image_member f \<Longrightarrow> f \<noteq> []"
  unfolding is_image_member_def endswith_any_def IMAGE_EXTS_def
  by (auto simp: posix_name_Nil lower_def endswith_def)

lemma video_nonempty: "is_video_member f \<Longrightarrow> f \<noteq> []"
  unfolding is_video_member_def
  by (auto simp: posix_name_Nil lower_def endswith_def)

lemma scan_members_general:
  "img \<noteq> Some [] \<Longrightarrow> mov \<noteq> Some [] \<Longrightarrow>
   scan_members names img mov =
     (case img of None \<Rightarrow> find is_image_member (kept_members names) | Some i \<Rightarrow> Some i,
      case mov of None \<Rightarrow> find is_video_member (kept_members names) | Some v \<Rightarrow> Some v)"
proof (induction names arbitrary: img mov)
  case Nil
  then show ?case by (simp add: kept_members_def split: option.splits)
next
  case (Cons f names)
  show ?case
  proof (cases "skipped f")
    case True
    with Cons show ?thesis
      by (cases img; cases mov) (simp_all add: kept_members_def)
  next
    case ns: False
    show ?thesis
    proof (cases "is_image_member f")
      case True
      then have nv: "\<not> is_video_member f" by (rule image_not_video)
      from True have fne: "f \<noteq> []" by (rule image_nonempty)
      let ?img2 = "if img = None then Some f else img"
      have i2: "?img2 \<noteq> Some []" using fne Cons.prems by simp
      have step: "scan_members (f # names) img mov =
          (if truthy ?img2 \<and> truthy mov then (?img2, mov) else scan_members names ?img2 mov)"
        using ns True by (simp add: is_image_member_def Let_def)
      show ?thesis
      proof (cases "truthy ?img2 \<and> truthy mov")
        case t: True
        show ?thesis unfolding step using t ns True nv
          by (cases img; cases mov) (simp_all add: kept_members_def)
      next
        case False
        have e: "scan_members (f # names) img mov = scan_members names ?img2 mov"
          unfolding step by (simp only: False if_False)
        show ?thesis unfolding e Cons.IH [OF i2 Cons.prems(2)] using ns True nv
          by (cases img; cases mov) (simp_all add: kept_members_def)
      qed
    next
      case ni: False
      show ?thesis
      proof (cases "is_video_member f")
        case True
        from True have fne: "f \<noteq> []" by (rule video_nonempty)
        let ?mov2 = "if mov = None then Some f else mov"
        have m2: "?mov2 \<noteq> Some []" using fne Cons.prems by simp
        have step: "scan_members (f # names) img mov =
          (if truthy img \<and> truthy ?mov2 then (img, ?mov2) else scan_members names img ?mov2)"
          using ns True ni by (simp add: is_image_member_def is_video_member_def Let_def)
        show ?thesis
        proof (cases "truthy img \<and> truthy ?mov2")
          case t: True
          show ?thesis unfolding step using t ns True ni
            by (cases img; cases mov) (simp_all add: kept_members_def)
        next
          case False
          have e: "scan_members (f # names) img mov = scan_members names img ?mov2"
            unfolding step by (simp only: False if_False)
          show ?thesis unfolding e Cons.IH [OF Cons.prems(1) m2] using ns True ni
            by (cases img; cases mov) (simp_all add: kept_members_def)
        qed
      next
        case nv: False
        have step: "scan_members (f # names) img mov =
          (if truthy img \<and> truthy mov then (img, mov) else scan_members names img mov)"
          using ns nv ni by (simp add: is_image_member_def is_video_member_def Let_def)
        show ?thesis
        proof (cases "truthy img \<and> truthy mov")
          case t: True
          show ?thesis unfolding step using t ns nv ni
            by (cases img; cases mov) (simp_all add: kept_members_def)
        next
          case False
          have e: "scan_members (f # names) img mov = scan_members names img mov"
            unfolding step by (simp only: False if_False)
          show ?thesis unfolding e Cons.IH [OF Cons.prems] using ns nv ni
            by (cases img; cases mov) (simp_all add: kept_members_def)
        qed
      qed
    qed
  qed
qed

lemma scan_members_select: "scan_members names None None = select_first names"
  by (simp add: scan_members_general select_first_def)

lemma lower_char_dot: "lower_char c = CHR ''.'' \<longleftrightarrow> c = CHR ''.''"
  by (auto simp: lower_char_def split: if_splits)

lemma kept_parts:
  "\<not> skipped f \<Longrightarrow> p \<in> set (posix_parts f) \<Longrightarrow> \<not> startswith (lower p) ''.''"
  unfolding skipped_def Let_def list_ex_iff by auto

lemma name_in_parts: "posix_name f \<noteq> [] \<Longrightarrow> posix_name f \<in> set (posix_parts f)"
  by (auto simp: posix_name_def posix_parts_def split: if_splits)

lemma suffix_ext:
  assumes e: "endswith (lower name) (CHR ''.'' # ext)"
    and ne: "ext \<noteq> []"
    and nd: "CHR ''.'' \<notin> set ext"
    and ns: "\<not> startswith (lower name) ''.''"
  shows "\<exists>i. rfind_dot name = Some i \<and> 0 < i \<and> i < length name - 1 \<and>
             lower (drop i name) = CHR ''.'' # ext"
proof -
  let ?k = "length name - Suc (length ext)"
  define pre where "pre = take ?k name"
  define suf where "suf = drop ?k name"
  from e have len: "Suc (length ext) \<le> length name"
    and d: "drop ?k (lower name) = CHR ''.'' # ext"
    by (simp_all add: endswith_def lower_def)
  have name: "name = pre @ suf" by (simp add: pre_def suf_def)
  have lp: "length pre = ?k" using len by (simp add: pre_def)
  from d have "map lower_char suf = CHR ''.'' # ext"
    by (simp add: lower_def suf_def drop_map)
  then obtain c rest where suf: "suf = c # rest" and c: "lower_char c = CHR ''.''"
    and rest: "map lower_char rest = ext"
    by (auto simp: map_eq_Cons_conv)
  from c have c': "c = CHR ''.''" by (simp add: lower_char_dot)
  have rest_nodot: "CHR ''.'' \<notin> set rest"
  proof
    assume "CHR ''.'' \<in> set rest"
    then have "lower_char (CHR ''.'') \<in> set (map lower_char rest)" by simp
    moreover have "lower_char (CHR ''.'') = CHR ''.''" by (simp add: lower_char_dot)
    ultimately show False using nd rest by simp
  qed
  have rne: "rest \<noteq> []" using rest ne by auto
  have pne: "pre \<noteq> []"
  proof
    assume "pre = []"
    then have "lower name = CHR ''.'' # lower rest"
      using name suf c' by (simp add: lower_def lower_char_dot)
    then show False using ns by (simp add: startswith_def)
  qed
  have "rev name = rev rest @ CHR ''.'' # rev pre"
    using name suf c' by simp
  then have tw: "takeWhile (\<lambda>c. c \<noteq> CHR ''.'') (rev name) = rev rest"
    using rest_nodot by (auto simp: takeWhile_tail)
  have ln: "length name = length pre + Suc (length rest)"
    using name suf by simp
  have "CHR ''.'' \<in> set name" using name suf c' by simp
  then have r: "rfind_dot name = Some (length pre)"
    by (simp add: rfind_dot_def tw ln)
  moreover have "0 < length pre" using pne by simp
  moreover have "length pre < length name - 1" using ln rne by simp
  moreover have "lower (drop (length pre) name) = CHR ''.'' # ext"
    using name suf c' rest by (simp add: lower_def lower_char_dot)
  ultimately show ?thesis by blast
qed

lemma image_suffix:
  assumes k: "\<not> skipped f" and i: "is_image_member f"
  shows "lower (posix_suffix f) \<in> set IMAGE_EXTS"
proof -
  from i obtain ext where x: "ext \<in> set IMAGE_EXTS"
    and e: "endswith (lower (posix_name f)) ext"
    by (auto simp: is_image_member_def endswith_any_def list_ex_iff)
  from e x have "posix_name f \<noteq> []"
    by (auto simp: endswith_def lower_def IMAGE_EXTS_def)
  then have ns: "\<not> startswith (lower (posix_name f)) ''.''"
    using kept_parts [OF k] name_in_parts by blast
  from x obtain t where t: "ext = CHR ''.'' # t" "t \<noteq> []" "CHR ''.'' \<notin> set t"
    by (auto simp: IMAGE_EXTS_def)
  from suffix_ext [OF e [unfolded t(1)] t(2) t(3) ns]
  have "lower (posix_suffix f) = ext"
    by (auto simp: posix_suffix_def Let_def t(1))
  with x show ?thesis by simp
qed

lemma find_kept:
  "find P (kept_members names) = Some f \<Longrightarrow> P f \<and> \<not> skipped f \<and> f \<in> set names"
proof -
  assume "find P (kept_members names) = Some f"
  then have "P f \<and> f \<in> set (kept_members names)"
    by (auto simp: find_Some_iff)
  then show ?thesis by (simp add: kept_members_def)
qed

lemma scan_image_ext:
  "scan_members names None None = (Some i, v) \<Longrightarrow> lower (posix_suffix i) \<in> set IMAGE_EXTS"
  using find_kept [of is_image_member names i] image_suffix [of i]
  by (simp add: scan_members_select select_first_def)

section \<open>One iteration of the loop\<close>

lemma any_exists_names:
  "any_exists d u = list_ex (path_exists d) (output_names u)"
  by (simp add: any_exists_def output_names_def list_ex_iff)

lemma handler_effect:
  "handler e s = (r, s2) \<Longrightarrow>
     r \<noteq> Success \<and> r \<noteq> SkippedIncomplete \<and> (r = Corrupt \<longleftrightarrow> e = BadZipFile) \<and>
     failed_extractions s2 = failed_extractions s + 1 \<and>
     successful_extractions s2 = successful_extractions s \<and>
     seen_filenames s2 = seen_filenames s \<and> output_folder s2 = output_folder s"
  by (cases e) auto

lemma copy_to_frame:
  "copy_to c path d = (x, d2) \<Longrightarrow> name \<noteq> path \<Longrightarrow> fmlookup d2 name = fmlookup d name"
  by (cases c) auto

lemma copy_to_ok:
  "copy_to c path d = (None, d2) \<Longrightarrow> \<exists>content. c = Copied content \<and> d2 = fmupd path content d"
  by (cases c) auto

lemma extract_selected_cases:
  "extract_selected zf u img mov s = skip_incomplete s \<and> \<not> (truthy img \<and> truthy mov)
   \<or> (\<exists>i v d1 e. img = Some i \<and> mov = Some v \<and> i \<noteq> [] \<and> v \<noteq> [] \<and>
        copy_to (member_read zf i) (u @ lower (posix_suffix i)) (output_folder s) = (Some e, d1) \<and>
        extract_selected zf u img mov s = handler e (s\<lparr>output_folder := d1\<rparr>))
   \<or> (\<exists>i v d1 d2 e. img = Some i \<and> mov = Some v \<and> i \<noteq> [] \<and> v \<noteq> [] \<and>
        copy_to (member_read zf i) (u @ lower (posix_suffix i)) (output_folder s) = (None, d1) \<and>
        copy_to (member_read zf v) (u @ ''.mov'') d1 = (Some e, d2) \<and>
        extract_selected zf u img mov s = handler e (s\<lparr>output_folder := d2\<rparr>))
   \<or> (\<exists>i v d1 d2. img = Some i \<and> mov = Some v \<and> i \<noteq> [] \<and> v \<noteq> [] \<and>
        copy_to (member_read zf i) (u @ lower (posix_suffix i)) (output_folder s) = (None, d1) \<and>
        copy_to (member_read zf v) (u @ ''.mov'') d1 = (None, d2) \<and>
        extract_selected zf u img mov s =
          (Success, s\<lparr>output_folder := d2,
                      successful_extractions := successful_extractions s + 1\<rparr>))"
proof (cases img)
  case None
  then show ?thesis by simp
next
  case i: (Some i)
  show ?thesis
  proof (cases mov)
    case None
    with i show ?thesis by simp
  next
    case v: (Some v)
    show ?thesis
    proof (cases "i = [] \<or> v = []")
      case True
      with i v show ?thesis by auto
    next
      case ne: False
      obtain x d1 where c1:
        "copy_to (member_read zf i) (u @ lower (posix_suffix i)) (output_folder s) = (x, d1)"
        by (cases "copy_to (member_read zf i) (u @ lower (posix_suffix i)) (output_folder s)")
      show ?thesis
      proof (cases x)
        case (Some e)
        with i v ne c1 show ?thesis by (simp add: Let_def)
      next
        case x: None
        obtain y d2 where c2: "copy_to (member_read zf v) (u @ ''.mov'') d1 = (y, d2)"
          by (cases "copy_to (member_read zf v) (u @ ''.mov'') d1")
        show ?thesis
        proof (cases y)
          case (Some e)
          with i v ne c1 x c2 show ?thesis by (simp add: Let_def)
        next
          case None
          with i v ne c1 x c2 show ?thesis by (simp add: Let_def)
        qed
      qed
    qed
  qed
qed

lemma extract_archive_counts:
  assumes "extract_archive f u s = (r, s2)"
  shows "seen_filenames s2 = seen_filenames s \<and>
    (r = Success \<and> successful_extractions s2 = successful_extractions s + 1 \<and>
       failed_extractions s2 = failed_extractions s
     \<or> r \<noteq> Success \<and> successful_extractions s2 = successful_extractions s \<and>
       failed_extractions s2 = failed_extractions s + 1)"
proof (cases "livp_zip f")
  case (Inl e)
  with assms have "handler e s = (r, s2)" by (simp add: extract_archive_def)
  from handler_effect [OF this] show ?thesis by simp
next
  case (Inr zf)
  obtain img mov where sc: "scan_members (namelist zf) None None = (img, mov)"
    by (cases "scan_members (namelist zf) None None")
  with Inr assms have x: "extract_selected zf u img mov s = (r, s2)"
    by (simp add: extract_archive_def)
  from extract_selected_cases [of zf u img mov s] show ?thesis
  proof (elim disjE exE conjE)
    assume "extract_selected zf u img mov s = skip_incomplete s"
    with x show ?thesis by (auto simp: skip_incomplete_def)
  next
    fix i v d1 e
    assume "extract_selected zf u img mov s = handler e (s\<lparr>output_folder := d1\<rparr>)"
    with x have "handler e (s\<lparr>output_folder := d1\<rparr>) = (r, s2)" by simp
    from handler_effect [OF this] show ?thesis by simp
  next
    fix i v d1 d2 e
    assume "extract_selected zf u img mov s = handler e (s\<lparr>output_folder := d2\<rparr>)"
    with x have "handler e (s\<lparr>output_folder := d2\<rparr>) = (r, s2)" by simp
    from handler_effect [OF this] show ?thesis by simp
  next
    fix i v d1 d2
    assume "extract_selected zf u img mov s =
      (Success, s\<lparr>output_folder := d2, successful_extractions := successful_extractions s + 1\<rparr>)"
    with x show ?thesis by auto
  qed
qed

lemma extract_archive_frame:
  assumes "extract_archive f u s = (r, s2)" and n: "name \<notin> set (output_names u)"
  shows "fmlookup (output_folder s2) name = fmlookup (output_folder s) name"
proof (cases "livp_zip f")
  case (Inl e)
  with assms have "handler e s = (r, s2)" by (simp add: extract_archive_def)
  from handler_effect [OF this] show ?thesis by simp
next
  case (Inr zf)
  obtain img mov where sc: "scan_members (namelist zf) None None = (img, mov)"
    by (cases "scan_members (namelist zf) None None")
  with Inr assms have x: "extract_selected zf u img mov s = (r, s2)"
    by (simp add: extract_archive_def)
  have nm: "name \<noteq> u @ ''.mov''" using n by (auto simp: output_names_def)
  have ni: "name \<noteq> u @ lower (posix_suffix i)" if "img = Some i" for i
  proof -
    from that sc have "lower (posix_suffix i) \<in> set IMAGE_EXTS"
      using scan_image_ext by blast
    then show ?thesis using n by (auto simp: output_names_def)
  qed
  from extract_selected_cases [of zf u img mov s] show ?thesis
  proof (elim disjE exE conjE)
    assume "extract_selected zf u img mov s = skip_incomplete s"
    with x show ?thesis by (auto simp: skip_incomplete_def)
  next
    fix i v d1 e
    assume i: "img = Some i"
      and c1: "copy_to (member_read zf i) (u @ lower (posix_suffix i)) (output_folder s) = (Some e, d1)"
      and "extract_selected zf u img mov s = handler e (s\<lparr>output_folder := d1\<rparr>)"
    with x have "handler e (s\<lparr>output_folder := d1\<rparr>) = (r, s2)" by simp
    from handler_effect [OF this] copy_to_frame [OF c1 ni [OF i]] show ?thesis by simp
  next
    fix i v d1 d2 e
    assume i: "img = Some i"
      and c1: "copy_to (member_read zf i) (u @ lower (posix_suffix i)) (output_folder s) = (None, d1)"
      and c2: "copy_to (member_read zf v) (u @ ''.mov'') d1 = (Some e, d2)"
      and "extract_selected zf u img mov s = handler e (s\<lparr>output_folder := d2\<rparr>)"
    with x have "handler e (s\<lparr>output_folder := d2\<rparr>) = (r, s2)" by simp
    from handler_effect [OF this] copy_to_frame [OF c1 ni [OF i]] copy_to_frame [OF c2 nm]
    show ?thesis by simp
  next
    fix i v d1 d2
    assume i: "img = Some i"
      and c1: "copy_to (member_read zf i) (u @ lower (posix_suffix i)) (output_folder s) = (None, d1)"
      and c2: "copy_to (member_read zf v) (u @ ''.mov'') d1 = (None, d2)"
      and "extract_selected zf u img mov s =
      (Success, s\<lparr>output_folder := d2, successful_extractions := successful_extractions s + 1\<rparr>)"
    with x have "output_folder s2 = d2" by auto
    with copy_to_frame [OF c1 ni [OF i]] copy_to_frame [OF c2 nm]
    show ?thesis by simp
  qed
qed

lemma extract_archive_success:
  assumes "extract_archive f u s = (Success, s2)"
  shows "\<exists>zf i v a b. livp_zip f = Inr zf \<and>
     scan_members (namelist zf) None None = (Some i, Some v) \<and>
     member_read zf i = Copied a \<and> member_read zf v = Copied b \<and>
     s2 = s\<lparr>output_folder :=
               fmupd (u @ ''.mov'') b (fmupd (u @ lower (posix_suffix i)) a (output_folder s)),
             successful_extractions := successful_extractions s + 1\<rparr>"
proof (cases "livp_zip f")
  case (Inl e)
  with assms have "handler e s = (Success, s2)" by (simp add: extract_archive_def)
  from handler_effect [OF this] show ?thesis by simp
next
  case (Inr zf)
  obtain img mov where sc: "scan_members (namelist zf) None None = (img, mov)"
    by (cases "scan_members (namelist zf) None None")
  with Inr assms have x: "extract_selected zf u img mov s = (Success, s2)"
    by (simp add: extract_archive_def)
  from extract_selected_cases [of zf u img mov s] show ?thesis
  proof (elim disjE exE conjE)
    assume "extract_selected zf u img mov s = skip_incomplete s"
    with x show ?thesis by (auto simp: skip_incomplete_def)
  next
    fix i v d1 e
    assume "extract_selected zf u img mov s = handler e (s\<lparr>output_folder := d1\<rparr>)"
    with x have "handler e (s\<lparr>output_folder := d1\<rparr>) = (Success, s2)" by simp
    from handler_effect [OF this] show ?thesis by simp
  next
    fix i v d1 d2 e
    assume "extract_selected zf u img mov s = handler e (s\<lparr>output_folder := d2\<rparr>)"
    with x have "handler e (s\<lparr>output_folder := d2\<rparr>) = (Success, s2)" by simp
    from handler_effect [OF this] show ?thesis by simp
  next
    fix i v d1 d2
    assume i: "img = Some i" and v: "mov = Some v"
      and c1: "copy_to (member_read zf i) (u @ lower (posix_suffix i)) (output_folder s) = (None, d1)"
      and c2: "copy_to (member_read zf v) (u @ ''.mov'') d1 = (None, d2)"
      and e: "extract_selected zf u img mov s =
      (Success, s\<lparr>output_folder := d2, successful_extractions := successful_extractions s + 1\<rparr>)"
    from copy_to_ok [OF c1] obtain a where a: "member_read zf i = Copied a"
      "d1 = fmupd (u @ lower (posix_suffix i)) a (output_folder s)" by blast
    from copy_to_ok [OF c2] obtain b where b: "member_read zf v = Copied b"
      "d2 = fmupd (u @ ''.mov'') b d1" by blast
    from x e have "s2 = s\<lparr>output_folder := d2,
      successful_extractions := successful_extractions s + 1\<rparr>" by simp
    with Inr sc i v a b show ?thesis by simp
  qed
qed


lemma process_file_unfold:
  "\<exists>u seen. get_unique_stem (livp_stem f) (seen_filenames s) (output_folder s) = Some (u, seen) \<and>
     \<not> any_exists (output_folder s) u \<and>
     process_file f s =
       Some ((u, fst (extract_archive f u (s\<lparr>seen_filenames := seen\<rparr>))),
             snd (extract_archive f u (s\<lparr>seen_filenames := seen\<rparr>)))"
proof -
  obtain u seen where g:
    "get_unique_stem (livp_stem f) (seen_filenames s) (output_folder s) = Some (u, seen)"
    using get_unique_stem_returns by blast
  then have "\<not> any_exists (output_folder s) u" by (rule get_unique_stem_free)
  moreover from g have "process_file f s =
       Some ((u, fst (extract_archive f u (s\<lparr>seen_filenames := seen\<rparr>))),
             snd (extract_archive f u (s\<lparr>seen_filenames := seen\<rparr>)))"
    by (simp add: process_file_def split_beta)
  ultimately show ?thesis using g by blast
qed

lemma process_file_returns: "\<exists>u r s2. process_file f s = Some ((u, r), s2)"
  using process_file_unfold [of f s] by blast

lemma process_file_counts:
  assumes "process_file f s = Some ((u, r), s2)"
  shows "r = Success \<and> successful_extractions s2 = successful_extractions s + 1 \<and>
       failed_extractions s2 = failed_extractions s
     \<or> r \<noteq> Success \<and> successful_extractions s2 = successful_extractions s \<and>
       failed_extractions s2 = failed_extractions s + 1"
proof -
  from process_file_unfold [of f s] assms obtain seen where
    "extract_archive f u (s\<lparr>seen_filenames := seen\<rparr>) = (r, s2)"
    by (auto simp: prod_eq_iff)
  from extract_archive_counts [OF this] show ?thesis by simp
qed

lemma process_file_frame:
  assumes p: "process_file f s = Some ((u, r), s2)"
    and e: "path_exists (output_folder s) name"
  shows "fmlookup (output_folder s2) name = fmlookup (output_folder s) name"
proof -
  from process_file_unfold [of f s] p obtain seen where
    x: "extract_archive f u (s\<lparr>seen_filenames := seen\<rparr>) = (r, s2)"
    and fr: "\<not> any_exists (output_folder s) u"
    by (auto simp: prod_eq_iff)
  from fr e have "name \<notin> set (output_names u)"
    by (auto simp: any_exists_names list_ex_iff)
  from extract_archive_frame [OF x this] show ?thesis by simp
qed

lemma run_returns:
  "\<exists>t s2. run files s = Some (t, s2) \<and> length t = length files \<and>
     successful_extractions s2 + failed_extractions s2 =
       successful_extractions s + failed_extractions s + length files"
proof (induction files arbitrary: s)
  case Nil
  then show ?case by simp
next
  case (Cons f files)
  obtain u r s1 where p: "process_file f s = Some ((u, r), s1)"
    using process_file_returns by blast
  from Cons.IH [of s1] obtain t s2 where r: "run files s1 = Some (t, s2)"
    and l: "length t = length files"
    and c: "successful_extractions s2 + failed_extractions s2 =
       successful_extractions s1 + failed_extractions s1 + length files"
    by blast
  from process_file_counts [OF p] c
  have "successful_extractions s2 + failed_extractions s2 =
       successful_extractions s + failed_extractions s + length (f # files)"
    by auto
  with p r l show ?case by simp
qed

lemma run_frame:
  "run files s = Some (t, s2) \<Longrightarrow> path_exists (output_folder s) name \<Longrightarrow>
     fmlookup (output_folder s2) name = fmlookup (output_folder s) name"
proof (induction files arbitrary: s t)
  case Nil
  then show ?case by simp
next
  case (Cons f files)
  from Cons.prems(1) obtain u r s1 t1 where p: "process_file f s = Some ((u, r), s1)"
    and r: "run files s1 = Some (t1, s2)"
    by (auto split: option.splits)
  from process_file_frame [OF p Cons.prems(2)]
  have k: "fmlookup (output_folder s1) name = fmlookup (output_folder s) name" .
  with Cons.prems(2) have "path_exists (output_folder s1) name"
    by (simp add: path_exists_def)
  from Cons.IH [OF r this] k show ?case by simp
qed

lemma process_file_free:
  "process_file f s = Some ((u, r), s2) \<Longrightarrow> \<not> any_exists (output_folder s) u"
  using process_file_unfold [of f s] by auto

lemma process_file_keeps_existing:
  assumes p: "process_file f s = Some ((u, r), s2)" and a: "any_exists (output_folder s) w"
  shows "any_exists (output_folder s2) w"
proof -
  from a obtain name where n: "name \<in> set (output_names w)"
    and e: "path_exists (output_folder s) name"
    by (auto simp: any_exists_names list_ex_iff)
  from process_file_frame [OF p e] e have "path_exists (output_folder s2) name"
    by (simp add: path_exists_def)
  with n show ?thesis by (auto simp: any_exists_names list_ex_iff)
qed

lemma run_stems_free:
  "run files s = Some (t, s2) \<Longrightarrow> (u, r) \<in> set t \<Longrightarrow> \<not> any_exists (output_folder s) u"
proof (induction files arbitrary: s t)
  case Nil
  then show ?case by simp
next
  case (Cons f files)
  from Cons.prems(1) obtain u1 r1 s1 t1 where p: "process_file f s = Some ((u1, r1), s1)"
    and r: "run files s1 = Some (t1, s2)" and t: "t = (u1, r1) # t1"
    by (auto split: option.splits)
  from Cons.prems(2) t consider "(u, r) = (u1, r1)" | "(u, r) \<in> set t1" by auto
  then show ?case
  proof cases
    case 1
    with process_file_free [OF p] show ?thesis by simp
  next
    case 2
    from Cons.IH [OF r 2] have "\<not> any_exists (output_folder s1) u" .
    then show ?thesis using process_file_keeps_existing [OF p] by blast
  qed
qed

lemma process_file_split:
  assumes "process_file f s = Some ((u, r), s2)"
  shows "\<exists>seen. extract_archive f u (s\<lparr>seen_filenames := seen\<rparr>) = (r, s2) \<and>
           \<not> any_exists (output_folder s) u"
proof -
  from process_file_unfold [of f s] obtain u' seen where
    fr: "\<not> any_exists (output_folder s) u'"
    and p: "process_file f s =
       Some ((u', fst (extract_archive f u' (s\<lparr>seen_filenames := seen\<rparr>))),
             snd (extract_archive f u' (s\<lparr>seen_filenames := seen\<rparr>)))"
    by blast
  from p assms have u: "u' = u"
    and "fst (extract_archive f u' (s\<lparr>seen_filenames := seen\<rparr>)) = r"
    and "snd (extract_archive f u' (s\<lparr>seen_filenames := seen\<rparr>)) = s2"
    by simp_all
  then have "extract_archive f u (s\<lparr>seen_filenames := seen\<rparr>) = (r, s2)"
    using prod.collapse by metis
  with fr u show ?thesis by blast
qed

text \<open>The definitions that evaluate the model on a concrete input.\<close>

lemmas eval_defs =
  main_loop_def initial_state_def process_file_def extract_archive_def get_unique_stem_def
  sanitize_stem_def strip_def illegal_def illegal_chars_def is_space_def whitespace_chars_def
  disk_loop.simps any_exists_def path_exists_def IMAGE_EXTS_def suffixed_def digit_char_def
  skipped_def posix_parts_def posix_root_def posix_segments_def posix_name_def
  posix_suffix_def rfind_dot_def lower_def lower_char_def startswith_def endswith_def
  endswith_any_def skip_incomplete_def is_image_member_def is_video_member_def
  kept_members_def select_first_def output_names_def example_zip_def example_livp_def
  video_only_zip_def video_only_livp_def corrupt_livp_def Let_def

lemma find_single: "filter P xs = [x] \<Longrightarrow> find P xs = Some x"
  by (induction xs) (auto split: if_splits)

lemma extract_archive_succeeds:
  "livp_zip f = Inr zf \<Longrightarrow> scan_members (namelist zf) None None = (Some i, Some v) \<Longrightarrow>
   i \<noteq> [] \<Longrightarrow> v \<noteq> [] \<Longrightarrow> member_read zf i = Copied a \<Longrightarrow> member_read zf v = Copied b \<Longrightarrow>
   fst (extract_archive f u s) = Success"
  by (simp add: extract_archive_def Let_def)

lemma run1: "map_option (\<lambda>(t, s). (t, output_folder s)) (main_loop [example_livp] fmempty) =
   Some ([(''IMG_0001'', Success)],
         fmupd ''IMG_0001.mov'' [4, 5] (fmupd ''IMG_0001.heic'' [1, 2, 3] fmempty))"
  by (simp add: eval_defs)

lemma run2: "map_option (\<lambda>(t, s). (t, output_folder s))
     (main_loop [example_livp] (fmupd ''IMG_0001.mov'' [4, 5] (fmupd ''IMG_0001.heic'' [1, 2, 3] fmempty))) =
   Some ([(''IMG_0001_1'', Success)],
     fmupd ''IMG_0001_1.mov'' [4, 5] (fmupd ''IMG_0001_1.heic'' [1, 2, 3]
         (fmupd ''IMG_0001.mov'' [4, 5] (fmupd ''IMG_0001.heic'' [1, 2, 3] fmempty))))"
  by (simp add: eval_defs)

section \<open>The claims about the loop\<close>






text \<open>
  C7. An iteration that ends in \<open>Success\<close> has added exactly two files to the output
  folder, neither of which existed before: the stem followed by the lower-cased suffix of
  the selected image member, which is one of the recognized image extensions, and the
  stem followed by \<^verbatim>\<open>.mov\<close>. Their contents are the bytes read from the selected image
  member and from the selected video member.
\<close>

theorem success_writes_two_files:
  assumes "process_file f s = Some ((u, Success), s2)"
  shows "\<exists>zf i v a b. livp_zip f = Inr zf \<and>
     scan_members (namelist zf) None None = (Some i, Some v) \<and>
     lower (posix_suffix i) \<in> set IMAGE_EXTS \<and>
     member_read zf i = Copied a \<and> member_read zf v = Copied b \<and>
     output_folder s2 =
       fmupd (u @ ''.mov'') b (fmupd (u @ lower (posix_suffix i)) a (output_folder s)) \<and>
     \<not> path_exists (output_folder s) (u @ lower (posix_suffix i)) \<and>
     \<not> path_exists (output_folder s) (u @ ''.mov'') \<and>
     u @ lower (posix_suffix i) \<noteq> u @ ''.mov''"
proof -
  from process_file_split [OF assms] obtain seen where
    x: "extract_archive f u (s\<lparr>seen_filenames := seen\<rparr>) = (Success, s2)"
    and fr: "\<not> any_exists (output_folder s) u"
    by blast
  from extract_archive_success [OF x] obtain zf i v a b where
    z: "livp_zip f = Inr zf"
    and sc: "scan_members (namelist zf) None None = (Some i, Some v)"
    and r: "member_read zf i = Copied a" "member_read zf v = Copied b"
    and s2: "s2 = s\<lparr>seen_filenames := seen\<rparr>\<lparr>output_folder :=
               fmupd (u @ ''.mov'') b
                 (fmupd (u @ lower (posix_suffix i)) a
                    (output_folder (s\<lparr>seen_filenames := seen\<rparr>))),
             successful_extractions :=
               successful_extractions (s\<lparr>seen_filenames := seen\<rparr>) + 1\<rparr>"
    by blast
  from sc have ext: "lower (posix_suffix i) \<in> set IMAGE_EXTS" by (rule scan_image_ext)
  then have "u @ lower (posix_suffix i) \<in> set (output_names u)"
    and "u @ ''.mov'' \<in> set (output_names u)"
    by (simp_all add: output_names_def)
  with fr have n: "\<not> path_exists (output_folder s) (u @ lower (posix_suffix i))"
    "\<not> path_exists (output_folder s) (u @ ''.mov'')"
    by (auto simp: any_exists_names list_ex_iff)
  from ext have d: "u @ lower (posix_suffix i) \<noteq> u @ ''.mov''"
    by (auto simp: IMAGE_EXTS_def)
  from s2 have "output_folder s2 =
       fmupd (u @ ''.mov'') b (fmupd (u @ lower (posix_suffix i)) a (output_folder s))"
    by simp
  with z sc ext r n d show ?thesis by blast
qed

theorem success_writes_two_files_witness:
  "map_option fst (process_file example_livp (initial_state fmempty)) =
     Some (''IMG_0001'', Success) \<and>
   map_option (output_folder \<circ> snd) (process_file example_livp (initial_state fmempty)) =
     Some (fmupd ''IMG_0001.mov'' [4, 5] (fmupd ''IMG_0001.heic'' [1, 2, 3] fmempty)) \<and>
   (\<exists>zf i v a b. livp_zip example_livp = Inr zf \<and>
     scan_members (namelist zf) None None = (Some i, Some v) \<and>
     lower (posix_suffix i) \<in> set IMAGE_EXTS \<and>
     member_read zf i = Copied a \<and> member_read zf v = Copied b \<and>
     output_folder (snd (the (process_file example_livp (initial_state fmempty)))) =
       fmupd (''IMG_0001'' @ ''.mov'') b
         (fmupd (''IMG_0001'' @ lower (posix_suffix i)) a
            (output_folder (initial_state fmempty))) \<and>
     \<not> path_exists (output_folder (initial_state fmempty))
         (''IMG_0001'' @ lower (posix_suffix i)) \<and>
     \<not> path_exists (output_folder (initial_state fmempty)) (''IMG_0001'' @ ''.mov'') \<and>
     ''IMG_0001'' @ lower (posix_suffix i) \<noteq> ''IMG_0001'' @ ''.mov'')"
proof -
  have p: "map_option fst (process_file example_livp (initial_state fmempty)) =
      Some (''IMG_0001'', Success)"
    by (simp add: eval_defs)
  have q: "map_option (output_folder \<circ> snd)
      (process_file example_livp (initial_state fmempty)) =
     Some (fmupd ''IMG_0001.mov'' [4, 5] (fmupd ''IMG_0001.heic'' [1, 2, 3] fmempty))"
    by (simp add: eval_defs)
  from p have "process_file example_livp (initial_state fmempty) =
      Some ((''IMG_0001'', Success),
            snd (the (process_file example_livp (initial_state fmempty))))"
    by (cases "process_file example_livp (initial_state fmempty)") auto
  from success_writes_two_files [OF this] p q show ?thesis by blast
qed

text \<open>
  C4. The loop over the member names computes the specification's selection: the first
  image member and, independently, the first video member among the members that have no
  hidden or metadata path segment. A member with a path segment whose lower-cased form
  starts with a dot or with \<^verbatim>\<open>__macosx\<close> is never selected. If the members kept contain
  exactly one image member and exactly one video member, in either order, both are
  selected, and if both are copied without an exception the iteration ends in
  \<open>Success\<close>.
\<close>

theorem selection_is_first_match:
  "scan_members names None None = select_first names \<and>
   ((\<exists>part \<in> set (posix_parts filename).
        startswith (lower part) ''.'' \<or> startswith (lower part) ''__macosx'') \<longrightarrow>
      fst (scan_members names None None) \<noteq> Some filename \<and>
      snd (scan_members names None None) \<noteq> Some filename) \<and>
   (filter is_image_member (kept_members names) = [i] \<and>
    filter is_video_member (kept_members names) = [v] \<longrightarrow>
      scan_members names None None = (Some i, Some v) \<and>
      (livp_zip f = Inr zf \<and> namelist zf = names \<and>
       member_read zf i = Copied a \<and> member_read zf v = Copied b \<longrightarrow>
         (\<exists>u s2. process_file f s = Some ((u, Success), s2))))"
proof -
  have sel: "scan_members names None None = select_first names"
    by (rule scan_members_select)
  have never: "fst (scan_members names None None) \<noteq> Some filename \<and>
      snd (scan_members names None None) \<noteq> Some filename"
    if "\<exists>part \<in> set (posix_parts filename).
        startswith (lower part) ''.'' \<or> startswith (lower part) ''__macosx''"
  proof -
    from that have sk: "skipped filename"
      by (auto simp: skipped_def Let_def list_ex_iff)
    then show ?thesis
      using find_kept [of is_image_member names filename]
        find_kept [of is_video_member names filename]
      by (auto simp: sel select_first_def)
  qed
  have single: "scan_members names None None = (Some i, Some v) \<and>
      (livp_zip f = Inr zf \<and> namelist zf = names \<and>
       member_read zf i = Copied a \<and> member_read zf v = Copied b \<longrightarrow>
         (\<exists>u s2. process_file f s = Some ((u, Success), s2)))"
    if one: "filter is_image_member (kept_members names) = [i] \<and>
      filter is_video_member (kept_members names) = [v]"
  proof -
    from one have fi: "find is_image_member (kept_members names) = Some i"
      and fv: "find is_video_member (kept_members names) = Some v"
      by (simp_all add: find_single)
    then have sc: "scan_members names None None = (Some i, Some v)"
      by (simp add: sel select_first_def)
    from find_kept [OF fi] have ine: "i \<noteq> []" using image_nonempty by blast
    from find_kept [OF fv] have vne: "v \<noteq> []" using video_nonempty by blast
    have "\<exists>u s2. process_file f s = Some ((u, Success), s2)"
      if io: "livp_zip f = Inr zf \<and> namelist zf = names \<and>
       member_read zf i = Copied a \<and> member_read zf v = Copied b"
    proof -
      from process_file_unfold [of f s] obtain u seen where
        p: "process_file f s =
          Some ((u, fst (extract_archive f u (s\<lparr>seen_filenames := seen\<rparr>))),
             snd (extract_archive f u (s\<lparr>seen_filenames := seen\<rparr>)))"
        by blast
      from io sc have "fst (extract_archive f u (s\<lparr>seen_filenames := seen\<rparr>)) = Success"
        using extract_archive_succeeds [OF _ _ ine vne] by blast
      with p show ?thesis by simp
    qed
    with sc show ?thesis by blast
  qed
  from sel never single show ?thesis by blast
qed

theorem selection_is_first_match_witness:
  "(\<exists>part \<in> set (posix_parts ''__MACOSX/._IMG_0001.HEIC'').
        startswith (lower part) ''.'' \<or> startswith (lower part) ''__macosx'') \<and>
   filter is_image_member (kept_members (namelist example_zip)) = [''IMG_0001.HEIC''] \<and>
   filter is_video_member (kept_members (namelist example_zip)) = [''IMG_0001.MOV''] \<and>
   select_first (namelist example_zip) = (Some ''IMG_0001.HEIC'', Some ''IMG_0001.MOV'') \<and>
   scan_members (namelist example_zip) None None = (Some ''IMG_0001.HEIC'', Some ''IMG_0001.MOV'') \<and>
   fst (scan_members (namelist example_zip) None None) \<noteq> Some ''__MACOSX/._IMG_0001.HEIC'' \<and>
   (\<exists>u s2. process_file example_livp (initial_state fmempty) = Some ((u, Success), s2))"
proof -
  have h1: "\<exists>part \<in> set (posix_parts ''__MACOSX/._IMG_0001.HEIC'').
        startswith (lower part) ''.'' \<or> startswith (lower part) ''__macosx''"
    by (simp add: eval_defs)
  have h2: "filter is_image_member (kept_members (namelist example_zip)) = [''IMG_0001.HEIC''] \<and>
    filter is_video_member (kept_members (namelist example_zip)) = [''IMG_0001.MOV'']"
    by (simp add: eval_defs)
  have h3: "livp_zip example_livp = Inr example_zip \<and> namelist example_zip = namelist example_zip \<and>
    member_read example_zip ''IMG_0001.HEIC'' = Copied [1, 2, 3] \<and>
    member_read example_zip ''IMG_0001.MOV'' = Copied [4, 5]"
    by (simp add: example_livp_def example_zip_def)
  from selection_is_first_match [of "namelist example_zip" "''__MACOSX/._IMG_0001.HEIC''"
      "''IMG_0001.HEIC''" "''IMG_0001.MOV''" example_livp example_zip "[1, 2, 3]" "[4, 5]"
      "initial_state fmempty"] h1 h2 h3
  show ?thesis by (elim conjE) (intro conjI; (assumption | simp))
qed

text \<open>
  C3. One iteration allocates a stem under which no file with one of the four extensions
  exists, and it leaves every file that is not named by that stem and one of the four
  extensions as it was. Hence a second run, on any list of archives, against the folder
  the first run left, returns; every file present after the first run is present with the
  same content after the second; and no stem the second run allocates names a file of the
  first run.
\<close>

theorem rerun_preserves_files:
  "(\<forall>u r s2. process_file f s = Some ((u, r), s2) \<longrightarrow>
      \<not> any_exists (output_folder s) u \<and>
      (\<forall>name. name \<notin> set (output_names u) \<longrightarrow>
         fmlookup (output_folder s2) name = fmlookup (output_folder s) name)) \<and>
   (\<exists>t1 s1 t2 s2.
      main_loop livp_files d = Some (t1, s1) \<and>
      main_loop livp_files2 (output_folder s1) = Some (t2, s2) \<and>
      (\<forall>name. path_exists (output_folder s1) name \<longrightarrow>
         fmlookup (output_folder s2) name = fmlookup (output_folder s1) name) \<and>
      (\<forall>u r. (u, r) \<in> set t2 \<longrightarrow> \<not> any_exists (output_folder s1) u))"
proof -
  have step: "\<not> any_exists (output_folder s) u \<and>
      (\<forall>name. name \<notin> set (output_names u) \<longrightarrow>
         fmlookup (output_folder s2) name = fmlookup (output_folder s) name)"
    if p: "process_file f s = Some ((u, r), s2)" for u r s2
  proof -
    from process_file_split [OF p] obtain seen where
      x: "extract_archive f u (s\<lparr>seen_filenames := seen\<rparr>) = (r, s2)"
      and fr: "\<not> any_exists (output_folder s) u"
      by blast
    from extract_archive_frame [OF x] fr show ?thesis by simp
  qed
  obtain t1 s1 where r1: "run livp_files (initial_state d) = Some (t1, s1)"
    using run_returns by blast
  obtain t2 s2 where r2: "run livp_files2 (initial_state (output_folder s1)) = Some (t2, s2)"
    using run_returns by blast
  have o: "output_folder (initial_state (output_folder s1)) = output_folder s1"
    by (simp add: initial_state_def)
  have keep: "\<forall>name. path_exists (output_folder s1) name \<longrightarrow>
         fmlookup (output_folder s2) name = fmlookup (output_folder s1) name"
    using run_frame [OF r2] o by simp
  have fresh: "\<forall>u r. (u, r) \<in> set t2 \<longrightarrow> \<not> any_exists (output_folder s1) u"
    using run_stems_free [OF r2] o by simp
  from r1 r2 keep fresh have "\<exists>t1 s1 t2 s2.
      main_loop livp_files d = Some (t1, s1) \<and>
      main_loop livp_files2 (output_folder s1) = Some (t2, s2) \<and>
      (\<forall>name. path_exists (output_folder s1) name \<longrightarrow>
         fmlookup (output_folder s2) name = fmlookup (output_folder s1) name) \<and>
      (\<forall>u r. (u, r) \<in> set t2 \<longrightarrow> \<not> any_exists (output_folder s1) u)"
    unfolding main_loop_def by blast
  with step show ?thesis by blast
qed

theorem rerun_preserves_files_witness:
  "(\<exists>u r s2. process_file example_livp (initial_state fmempty) = Some ((u, r), s2) \<and>
      \<not> any_exists (output_folder (initial_state fmempty)) u \<and>
      ''notes.txt'' \<notin> set (output_names u) \<and>
      fmlookup (output_folder s2) ''notes.txt'' =
        fmlookup (output_folder (initial_state fmempty)) ''notes.txt'') \<and>
   (\<exists>t1 s1 t2 s2.
      main_loop [example_livp] fmempty = Some (t1, s1) \<and>
      main_loop [example_livp] (output_folder s1) = Some (t2, s2) \<and>
      t1 = [(''IMG_0001'', Success)] \<and> t2 = [(''IMG_0001_1'', Success)] \<and>
      path_exists (output_folder s1) ''IMG_0001.mov'' \<and>
      fmlookup (output_folder s1) ''IMG_0001.mov'' = Some [4, 5] \<and>
      fmlookup (output_folder s2) ''IMG_0001.mov'' = Some [4, 5] \<and>
      \<not> any_exists (output_folder s1) ''IMG_0001_1'')"
proof -
  note inst = rerun_preserves_files [of example_livp "initial_state fmempty" "[example_livp]"
      fmempty "[example_livp]"]
  obtain u r s0 where p: "process_file example_livp (initial_state fmempty) = Some ((u, r), s0)"
    using process_file_returns by blast
  have "map_option (fst \<circ> fst) (process_file example_livp (initial_state fmempty)) =
      Some ''IMG_0001''"
    by (simp add: eval_defs)
  with p have u: "u = ''IMG_0001''" by simp
  then have n: "''notes.txt'' \<notin> set (output_names u)"
    by (simp add: output_names_def IMAGE_EXTS_def)
  from inst p have "\<not> any_exists (output_folder (initial_state fmempty)) u \<and>
      (\<forall>name. name \<notin> set (output_names u) \<longrightarrow>
         fmlookup (output_folder s0) name =
           fmlookup (output_folder (initial_state fmempty)) name)"
    by blast
  with p n have a: "\<exists>u r s2.
      process_file example_livp (initial_state fmempty) = Some ((u, r), s2) \<and>
      \<not> any_exists (output_folder (initial_state fmempty)) u \<and>
      ''notes.txt'' \<notin> set (output_names u) \<and>
      fmlookup (output_folder s2) ''notes.txt'' =
        fmlookup (output_folder (initial_state fmempty)) ''notes.txt''"
    by blast
  from inst obtain t1 s1 t2 s2 where
    m1: "main_loop [example_livp] fmempty = Some (t1, s1)"
    and m2: "main_loop [example_livp] (output_folder s1) = Some (t2, s2)"
    and keep: "\<forall>name. path_exists (output_folder s1) name \<longrightarrow>
         fmlookup (output_folder s2) name = fmlookup (output_folder s1) name"
    and fresh: "\<forall>u r. (u, r) \<in> set t2 \<longrightarrow> \<not> any_exists (output_folder s1) u"
    by blast
  from run1 m1 have t1: "t1 = [(''IMG_0001'', Success)]"
    and d1: "output_folder s1 =
      fmupd ''IMG_0001.mov'' [4, 5] (fmupd ''IMG_0001.heic'' [1, 2, 3] fmempty)"
    by simp_all
  from run2 m2 d1 have t2: "t2 = [(''IMG_0001_1'', Success)]"
    by simp
  from d1 have e: "path_exists (output_folder s1) ''IMG_0001.mov''"
    and l: "fmlookup (output_folder s1) ''IMG_0001.mov'' = Some [4, 5]"
    by (simp_all add: path_exists_def)
  from keep e l have l2: "fmlookup (output_folder s2) ''IMG_0001.mov'' = Some [4, 5]"
    by simp
  from fresh t2 have "\<not> any_exists (output_folder s1) ''IMG_0001_1''"
    by simp
  with m1 m2 t1 t2 e l l2 have b: "\<exists>t1 s1 t2 s2.
      main_loop [example_livp] fmempty = Some (t1, s1) \<and>
      main_loop [example_livp] (output_folder s1) = Some (t2, s2) \<and>
      t1 = [(''IMG_0001'', Success)] \<and> t2 = [(''IMG_0001_1'', Success)] \<and>
      path_exists (output_folder s1) ''IMG_0001.mov'' \<and>
      fmlookup (output_folder s1) ''IMG_0001.mov'' = Some [4, 5] \<and>
      fmlookup (output_folder s2) ''IMG_0001.mov'' = Some [4, 5] \<and>
      \<not> any_exists (output_folder s1) ''IMG_0001_1''"
    by blast
  from a b show ?thesis ..
qed

section \<open>The registry alone does not separate duplicates\<close>

text \<open>
  Against an unchanged folder, a second request with the same raw stem and the registry
  the first request returned is answered with the same stem.
\<close>

lemma disk_loop_free:
  "\<not> any_exists d cand \<Longrightarrow> disk_loop d base c cand = Some (c, cand)"
  by (subst disk_loop.simps) simp

lemma get_unique_stem_repeats:
  assumes "get_unique_stem raw reg d = Some (u, reg2)"
  shows "\<exists>reg3. get_unique_stem raw reg2 d = Some (u, reg3)"
proof -
  let ?base = "sanitize_stem raw"
  let ?c = "case reg ?base of None \<Rightarrow> 0 | Some c \<Rightarrow> c"
  let ?cand = "case reg ?base of
                 None \<Rightarrow> ?base
               | Some c \<Rightarrow> if c = 0 then ?base else suffixed ?base c"
  obtain c2 cand2 where l: "disk_loop d ?base ?c ?cand = Some (c2, cand2)"
    and fr: "\<not> any_exists d cand2"
    and alt: "c2 = ?c \<and> cand2 = ?cand \<or> ?c < c2 \<and> cand2 = suffixed ?base c2"
    using disk_loop_returns [of d ?base ?c ?cand] by blast
  from assms l have u: "u = cand2" and r: "reg2 = reg(?base \<mapsto> c2)"
    by (simp_all add: get_unique_stem_unfold)
  have cand: "(if c2 = 0 then ?base else suffixed ?base c2) = cand2"
    using alt by (cases "reg ?base") auto
  have rb: "reg2 ?base = Some c2" using r by simp
  have "get_unique_stem raw reg2 d =
      (case disk_loop d ?base c2 (if c2 = 0 then ?base else suffixed ?base c2) of
         None \<Rightarrow> None
       | Some (c3, cand3) \<Rightarrow> Some (cand3, reg2(?base \<mapsto> c3)))"
    by (simp add: get_unique_stem_unfold [of raw reg2 d] rb)
  also have "\<dots> =
      (case disk_loop d ?base c2 cand2 of
         None \<Rightarrow> None
       | Some (c3, cand3) \<Rightarrow> Some (cand3, reg2(?base \<mapsto> c3)))"
    by (simp only: cand)
  also have "\<dots> = Some (cand2, reg2(?base \<mapsto> c2))"
    using disk_loop_free [OF fr] by simp
  finally show ?thesis using u by simp
qed

text \<open>
  C1 states that the stems allocated in one run are pairwise distinct. The run evaluated
  here allocates the same stem twice: to two archives of the same name of which the first
  holds a video only, and to two files of the same name that are not zip archives. The
  first archive of each pair writes no file, the registry holds 0 for the stem, and line 23
  offers the unsuffixed stem again.
\<close>

theorem duplicate_stem_in_one_run:
  "map_option fst (main_loop [video_only_livp, example_livp] fmempty) =
     Some [(''IMG_0001'', SkippedIncomplete), (''IMG_0001'', Success)] \<and>
   map_option fst (main_loop [corrupt_livp, corrupt_livp] fmempty) =
     Some [(''IMG_0001'', Corrupt), (''IMG_0001'', Corrupt)]"
  by (simp add: eval_defs)

text \<open>
  C2 states that after the allocator has returned the base stem itself, the value it
  records in the registry makes the next request for the same base stem return the stem
  suffixed with \<^verbatim>\<open>_1\<close>. Evaluated on an empty folder: the first request returns
  \<^verbatim>\<open>IMG_0001\<close> and records 0, and the second request, against the same folder, returns
  \<^verbatim>\<open>IMG_0001\<close> again.
\<close>

theorem registry_zero_repeats_stem:
  "(case get_unique_stem ''IMG_0001'' Map.empty fmempty of
      None \<Rightarrow> None
    | Some (stem1, reg1) \<Rightarrow>
        (case get_unique_stem ''IMG_0001'' reg1 fmempty of
           None \<Rightarrow> None
         | Some (stem2, reg2) \<Rightarrow> Some (stem1, reg1 ''IMG_0001'', stem2))) =
   Some (''IMG_0001'', Some 0, ''IMG_0001'')"
  by (simp add: eval_defs)

end
